theory Spec2Isabelle
  imports Main "HOL-Library.Product_Lexorder"
begin

section \<open>Column types\<close>

text \<open>
  The SQL column types of the migrations. A \<open>uuid\<close> is an opaque key, only compared; a
  \<open>timestamp with time zone\<close> is a point on the time line (seconds since the epoch
  here; the statements below only order timestamps and copy them); \<open>text\<close> and
  \<open>jsonb\<close> values are carried as strings. A nullable column is an \<open>option\<close>, and
  \<open>integer\<close> columns are integers (the statements below do no arithmetic that could
  leave the 32-bit range, except the retry counter's increment by one).
\<close>

type_synonym uuid = nat
type_synonym timestamptz = int
type_synonym sql_text = string
type_synonym jsonb = string

section \<open>The job queue: table \<open>story_jobs\<close>\<close>

text \<open>
  \<open>status text not null default 'pending' check (status in ('pending', 'running',
  'completed', 'failed'))\<close>: the four values the check constraint admits.
\<close>

datatype job_status = pending | running | completed | failed

text \<open>
  One row of \<open>public.story_jobs\<close>: the columns of the table definition, then
  \<open>claimed_by\<close> and \<open>claimed_at\<close> (added by 007_add_job_locking.sql) and
  \<open>preshow_id\<close> (added by 008_ios_app_support.sql). Fields are named as the claiming
  function names them through its alias \<open>sj\<close>.
\<close>

record story_job =
  sj_id :: uuid
  sj_job_id :: sql_text
  sj_status :: job_status
  sj_story_bible :: jsonb
  sj_user_email :: sql_text
  sj_user_id :: "uuid option"
  sj_settings :: "jsonb option"
  sj_current_step :: "sql_text option"
  sj_progress_percent :: "int option"
  sj_result :: "jsonb option"
  sj_story_id :: "uuid option"
  sj_error_message :: "sql_text option"
  sj_created_at :: timestamptz
  sj_started_at :: "timestamptz option"
  sj_completed_at :: "timestamptz option"
  sj_generation_time_seconds :: "int option"
  sj_retry_count :: int
  sj_claimed_by :: "sql_text option"
  sj_claimed_at :: "timestamptz option"
  sj_preshow_id :: "uuid option"

text \<open>The row type \<open>claim_pending_job\<close> returns (its \<open>RETURNS TABLE\<close> clause).\<close>

record claimed_job =
  cj_id :: uuid
  cj_job_id :: sql_text
  cj_story_bible :: jsonb
  cj_user_email :: sql_text
  cj_settings :: "jsonb option"
  cj_created_at :: timestamptz
  cj_retry_count :: int

subsection \<open>\<open>claim_pending_job\<close> (007_add_job_locking.sql)\<close>

text \<open>
  The table is the list of its rows in scan order. The function body is one \<open>UPDATE\<close>
  statement whose target is chosen by a sub-select, followed by an \<open>IF\<close> that returns the
  updated row, so a call is one transformation of the table.

  The sub-select's \<open>WHERE\<close> clause: \<open>sj2.status = 'pending' AND sj2.retry_count < 3\<close>.
\<close>

definition pending_below_limit :: "story_job \<Rightarrow> bool" where
  "pending_below_limit sj2 \<longleftrightarrow> sj_status sj2 = pending \<and> sj_retry_count sj2 < 3"

text \<open>
  \<open>SELECT sj2.id FROM story_jobs sj2 WHERE ... ORDER BY sj2.created_at ASC LIMIT 1 FOR
  UPDATE SKIP LOCKED\<close>: the matching rows sorted by \<open>created_at\<close>, the first one's id, or
  no value when none matches; among rows of equal \<open>created_at\<close> the scan order decides.
  Calls run one after the other here, so no other transaction holds a row lock while
  the statement runs and \<open>SKIP LOCKED\<close> skips nothing.
\<close>

definition oldest_pending :: "story_job list \<Rightarrow> uuid option" where
  "oldest_pending tbl =
     (case sort_key sj_created_at (filter pending_below_limit tbl) of
        [] \<Rightarrow> None
      | sj2 # _ \<Rightarrow> Some (sj_id sj2))"

text \<open>
  The \<open>SET\<close> clause; \<open>NOW()\<close> is the same instant in both assignments. The parameter
  \<open>worker_id TEXT\<close> can be null (the function is not declared \<open>STRICT\<close>), and
  \<open>claimed_by\<close> gets whatever was passed.
\<close>

definition claim_row :: "sql_text option \<Rightarrow> timestamptz \<Rightarrow> story_job \<Rightarrow> story_job" where
  "claim_row worker_id now sj =
     sj\<lparr>sj_status := running,
        sj_claimed_by := worker_id,
        sj_claimed_at := Some now,
        sj_started_at := Some now\<rparr>"

text \<open>The \<open>RETURNING\<close> list, read from the updated row.\<close>

definition returning :: "story_job \<Rightarrow> claimed_job" where
  "returning sj =
     \<lparr>cj_id = sj_id sj,
      cj_job_id = sj_job_id sj,
      cj_story_bible = sj_story_bible sj,
      cj_user_email = sj_user_email sj,
      cj_settings = sj_settings sj,
      cj_created_at = sj_created_at sj,
      cj_retry_count = sj_retry_count sj\<rparr>"

text \<open>
  The whole function. With no value from the sub-select, \<open>sj.id = NULL\<close> holds for no
  row: nothing is updated, \<open>claimed_job.id\<close> is null and the result set is empty (\<open>None\<close>).
  Otherwise every row whose id equals the selected one is updated, and the first
  returned row is the result (\<open>RETURNING ... INTO\<close> keeps the first row).
\<close>

definition claim_pending_job ::
  "sql_text option \<Rightarrow> timestamptz \<Rightarrow> story_job list \<Rightarrow> story_job list \<times> claimed_job option" where
  "claim_pending_job worker_id now tbl =
     (case oldest_pending tbl of
        None \<Rightarrow> (tbl, None)
      | Some k \<Rightarrow>
          (map (\<lambda>sj. if sj_id sj = k then claim_row worker_id now sj else sj) tbl,
           case filter (\<lambda>sj. sj_id sj = k) tbl of
             [] \<Rightarrow> None
           | sj # _ \<Rightarrow> Some (returning (claim_row worker_id now sj))))"

subsection \<open>Sample rows\<close>

definition job_template :: story_job where
  "job_template =
     \<lparr>sj_id = 0, sj_job_id = ''job'', sj_status = pending, sj_story_bible = ''{}'',
      sj_user_email = ''reader@example.com'', sj_user_id = None, sj_settings = None,
      sj_current_step = None, sj_progress_percent = Some 0, sj_result = None,
      sj_story_id = None, sj_error_message = None, sj_created_at = 0,
      sj_started_at = None, sj_completed_at = None, sj_generation_time_seconds = None,
      sj_retry_count = 0, sj_claimed_by = None, sj_claimed_at = None,
      sj_preshow_id = None\<rparr>"

definition job_a :: story_job where
  "job_a = job_template\<lparr>sj_id := 1, sj_job_id := ''job-a'', sj_created_at := 50\<rparr>"

definition job_b :: story_job where
  "job_b = job_template\<lparr>sj_id := 2, sj_job_id := ''job-b'', sj_created_at := 20\<rparr>"

definition job_c :: story_job where
  "job_c = job_template\<lparr>sj_id := 3, sj_job_id := ''job-c'', sj_created_at := 10,
     sj_retry_count := 3\<rparr>"

definition job_d :: story_job where
  "job_d = job_template\<lparr>sj_id := 4, sj_job_id := ''job-d'', sj_created_at := 5,
     sj_status := running, sj_claimed_by := Some ''worker-0'', sj_claimed_at := Some 6,
     sj_started_at := Some 6\<rparr>"

definition job_e :: story_job where
  "job_e = job_template\<lparr>sj_id := 5, sj_job_id := ''job-e'', sj_created_at := 7,
     sj_retry_count := 4\<rparr>"


definition job_g :: story_job where
  "job_g = job_template\<lparr>sj_id := 7, sj_job_id := ''job-g'', sj_created_at := 8,
     sj_status := running, sj_started_at := Some 9\<rparr>"

subsection \<open>Calls one after the other\<close>

text \<open>
  A worker polls the function in a loop and several workers do so; \<open>claim_calls\<close> runs a
  list of calls, each with its worker and its clock reading, on the table the previous
  call left, and collects the results.
\<close>

fun claim_calls ::
  "(sql_text option \<times> timestamptz) list \<Rightarrow> story_job list \<Rightarrow> story_job list \<times> claimed_job option list" where
  "claim_calls [] tbl = (tbl, [])"
| "claim_calls ((worker_id, now) # calls) tbl =
     (case claim_pending_job worker_id now tbl of
        (tbl', r) \<Rightarrow> (case claim_calls calls tbl' of (tbl'', rs) \<Rightarrow> (tbl'', r # rs)))"

subsection \<open>What the table definition accepts\<close>

text \<open>
  The errors a statement can raise against the constraints modelled here, with the
  constraint's name.
\<close>

datatype sql_error = unique_violation sql_text | check_violation sql_text

text \<open>
  \<open>INSERT INTO story_jobs\<close> of a complete row. The constraints of the table definition:
  the primary key on \<open>id\<close>, \<open>job_id text unique\<close>, and
  \<open>check (progress_percent >= 0 and progress_percent <= 100)\<close>, which a null passes. The
  check on \<open>status\<close> and the \<open>not null\<close> columns are in the row's type. Neither the table
  definition nor a later migration puts a constraint on \<open>retry_count\<close>, \<open>claimed_by\<close> or
  \<open>claimed_at\<close>, and there is no \<open>max_retries\<close> column. The foreign keys point into
  tables that are not modelled.
\<close>

definition progress_percent_check :: "story_job \<Rightarrow> bool" where
  "progress_percent_check sj =
     (case sj_progress_percent sj of None \<Rightarrow> True | Some p \<Rightarrow> 0 \<le> p \<and> p \<le> 100)"

definition insert_story_job :: "story_job \<Rightarrow> story_job list \<Rightarrow> sql_error + story_job list" where
  "insert_story_job new tbl =
     (if progress_percent_check new = False
        then Inl (check_violation ''story_jobs_progress_percent_check'')
      else if sj_id new \<in> sj_id ` set tbl then Inl (unique_violation ''story_jobs_pkey'')
      else if sj_job_id new \<in> sj_job_id ` set tbl
        then Inl (unique_violation ''story_jobs_job_id_key'')
      else Inr (tbl @ [new]))"

text \<open>
  The relation between \<open>status\<close> and the claim columns that the specification asks of
  every row: a running row names its worker and its claim time, any other row names no
  worker.
\<close>

definition claim_fields_ok :: "story_job \<Rightarrow> bool" where
  "claim_fields_ok sj \<longleftrightarrow>
     (sj_status sj = running \<longrightarrow> sj_claimed_by sj \<noteq> None \<and> sj_claimed_at sj \<noteq> None) \<and>
     (sj_status sj \<noteq> running \<longrightarrow> sj_claimed_by sj = None)"

subsection \<open>Retry delay\<close>



section \<open>The delivery queue: table \<open>scheduled_deliveries\<close>\<close>

text \<open>
  \<open>status text not null default 'pending' check (status in ('pending', 'sending', 'sent',
  'failed'))\<close>. The constructors carry a prefix where the job statuses have the name.
\<close>

datatype delivery_status = delivery_pending | sending | sent | delivery_failed

text \<open>One row of \<open>public.scheduled_deliveries\<close>, column by column.\<close>

record scheduled_delivery =
  sd_id :: uuid
  sd_story_id :: uuid
  sd_user_id :: uuid
  sd_user_email :: sql_text
  sd_deliver_at :: timestamptz
  sd_timezone :: sql_text
  sd_status :: delivery_status
  sd_sent_at :: "timestamptz option"
  sd_resend_email_id :: "sql_text option"
  sd_error_message :: "sql_text option"
  sd_retry_count :: int
  sd_created_at :: timestamptz
  sd_updated_at :: timestamptz

subsection \<open>The migration that removes duplicate deliveries\<close>

text \<open>
  \<open>SELECT DISTINCT ON (story_id) ...\<close> over rows sorted by the \<open>ORDER BY\<close> keys keeps the
  first row of every run of rows with equal \<open>story_id\<close>.
\<close>

fun distinct_on :: "('a \<Rightarrow> 'k) \<Rightarrow> 'a list \<Rightarrow> 'a list" where
  "distinct_on k [] = []"
| "distinct_on k [x] = [x]"
| "distinct_on k (x # y # ys) =
     (if k x = k y then distinct_on k (x # ys) else x # distinct_on k (y # ys))"

text \<open>
  \<open>SELECT DISTINCT ON (story_id) id FROM scheduled_deliveries ORDER BY story_id,
  created_at ASC\<close>: the rows the sub-select keeps, then their ids.
\<close>

definition first_deliveries :: "scheduled_delivery list \<Rightarrow> scheduled_delivery list" where
  "first_deliveries tbl =
     distinct_on sd_story_id (sort_key (\<lambda>d. (sd_story_id d, sd_created_at d)) tbl)"

definition first_delivery_ids :: "scheduled_delivery list \<Rightarrow> uuid list" where
  "first_delivery_ids tbl = map sd_id (first_deliveries tbl)"

text \<open>\<open>DELETE FROM scheduled_deliveries WHERE id NOT IN (...)\<close>: the rows that stay.\<close>

definition delete_duplicate_deliveries :: "scheduled_delivery list \<Rightarrow> scheduled_delivery list" where
  "delete_duplicate_deliveries tbl = filter (\<lambda>d. sd_id d \<in> set (first_delivery_ids tbl)) tbl"

text \<open>
  \<open>ALTER TABLE ... ADD CONSTRAINT unique_story_delivery UNIQUE (story_id)\<close> validates the
  rows present and fails when two of them share a \<open>story_id\<close>.
\<close>

definition add_unique_story_delivery ::
  "scheduled_delivery list \<Rightarrow> sql_error + scheduled_delivery list" where
  "add_unique_story_delivery tbl =
     (if distinct (map sd_story_id tbl) then Inr tbl
      else Inl (unique_violation ''unique_story_delivery''))"

text \<open>The migration: the clean-up, then the constraint.\<close>

definition fix_duplicate_deliveries ::
  "scheduled_delivery list \<Rightarrow> sql_error + scheduled_delivery list" where
  "fix_duplicate_deliveries tbl = add_unique_story_delivery (delete_duplicate_deliveries tbl)"

subsection \<open>Statements on the table once the constraint is in place\<close>

text \<open>
  The trigger function \<open>update_updated_at_column\<close>, run \<open>BEFORE UPDATE ... FOR EACH
  ROW\<close>: \<open>NEW.updated_at = now(); RETURN NEW\<close>.
\<close>

definition update_updated_at_column :: "timestamptz \<Rightarrow> scheduled_delivery \<Rightarrow> scheduled_delivery" where
  "update_updated_at_column now new = new\<lparr>sd_updated_at := now\<rparr>"

text \<open>
  The unique constraints a statement's result is checked against: the primary key and
  \<open>unique_story_delivery\<close>. \<open>story_id\<close> is \<open>not null\<close>, so no two rows escape the
  constraint through a null.
\<close>

definition violated_constraint :: "scheduled_delivery list \<Rightarrow> sql_error option" where
  "violated_constraint tbl =
     (if distinct (map sd_id tbl) = False then Some (unique_violation ''scheduled_deliveries_pkey'')
      else if distinct (map sd_story_id tbl) = False
        then Some (unique_violation ''unique_story_delivery'')
      else None)"

text \<open>
  The policies \<open>Allow insert/update/delete scheduled_deliveries\<close> admit every row
  (\<open>USING (true) WITH CHECK (true)\<close>), so a statement is limited by the constraints only.
  \<open>INSERT\<close> of a complete row:
\<close>

definition insert_delivery ::
  "scheduled_delivery \<Rightarrow> scheduled_delivery list \<Rightarrow> sql_error + scheduled_delivery list" where
  "insert_delivery new tbl =
     (case violated_constraint (tbl @ [new]) of
        Some e \<Rightarrow> Inl e
      | None \<Rightarrow> Inr (tbl @ [new]))"

text \<open>
  \<open>UPDATE scheduled_deliveries SET ... WHERE ...\<close> at time \<open>now\<close>: every row the \<open>WHERE\<close>
  clause selects gets the \<open>SET\<close> clause applied, then the trigger; the statement fails as
  a whole when the new rows break a constraint.
\<close>

definition update_deliveries ::
  "timestamptz \<Rightarrow> (scheduled_delivery \<Rightarrow> bool) \<Rightarrow> (scheduled_delivery \<Rightarrow> scheduled_delivery) \<Rightarrow>
   scheduled_delivery list \<Rightarrow> sql_error + scheduled_delivery list" where
  "update_deliveries now where_clause set_clause tbl =
     (let tbl' = map (\<lambda>d. if where_clause d then update_updated_at_column now (set_clause d)
                           else d) tbl
      in case violated_constraint tbl' of
           Some e \<Rightarrow> Inl e
         | None \<Rightarrow> Inr tbl')"

text \<open>\<open>DELETE FROM scheduled_deliveries WHERE ...\<close>.\<close>

definition delete_deliveries ::
  "(scheduled_delivery \<Rightarrow> bool) \<Rightarrow> scheduled_delivery list \<Rightarrow> sql_error + scheduled_delivery list" where
  "delete_deliveries where_clause tbl = Inr (filter (\<lambda>d. where_clause d = False) tbl)"

datatype delivery_statement =
    Insert scheduled_delivery
  | Update timestamptz "scheduled_delivery \<Rightarrow> bool" "scheduled_delivery \<Rightarrow> scheduled_delivery"
  | Delete "scheduled_delivery \<Rightarrow> bool"

fun exec_statement ::
  "delivery_statement \<Rightarrow> scheduled_delivery list \<Rightarrow> sql_error + scheduled_delivery list" where
  "exec_statement (Insert new) tbl = insert_delivery new tbl"
| "exec_statement (Update now where_clause set_clause) tbl =
     update_deliveries now where_clause set_clause tbl"
| "exec_statement (Delete where_clause) tbl = delete_deliveries where_clause tbl"

text \<open>
  A history of statements. One that raises an error changes nothing, and the history
  goes on from the table as it was.
\<close>

fun exec_statements :: "delivery_statement list \<Rightarrow> scheduled_delivery list \<Rightarrow> scheduled_delivery list" where
  "exec_statements [] tbl = tbl"
| "exec_statements (st # sts) tbl =
     (case exec_statement st tbl of
        Inl e \<Rightarrow> exec_statements sts tbl
      | Inr tbl' \<Rightarrow> exec_statements sts tbl')"

subsection \<open>Delivery processing\<close>

text \<open>
  The delivery worker, its retry handling and the stale-claim reaper run in the backend
  (\<open>backend.queue.run_delivery\<close>), which is not among the sources. Sections 4.4 to 4.6
  of the specification give their writes; each is an \<open>UPDATE\<close> of the table, given here
  by its \<open>WHERE\<close> and \<open>SET\<close> clauses and run through \<open>update_deliveries\<close>.
\<close>

text \<open>
  Modelled from the spec: the writes of the missing delivery worker and reaper (sections
  4.4 and 4.6): start sending a row, record a successful send with the provider's
  receipt id, record a retryable failure, record a fatal failure, and a reaper run over
  the rows it finds stale. The reaper's test for a stale row is a parameter.
\<close>

datatype delivery_step =
    Start_sending uuid
  | Record_sent uuid sql_text
  | Record_failure uuid sql_text
  | Record_fatal uuid sql_text
  | Reap "scheduled_delivery \<Rightarrow> bool"

text \<open>
  Modelled from the spec: the bounded-retry policy of the missing worker (sections 4.3
  and 4.5): increment \<open>retryCount\<close>; below the retry limit the row goes back to
  \<open>Pending\<close>, otherwise it is \<open>Failed\<close> for good and keeps the error message. The retry
  limit is a parameter.
\<close>

definition retry_or_fail :: "int \<Rightarrow> sql_text \<Rightarrow> scheduled_delivery \<Rightarrow> scheduled_delivery" where
  "retry_or_fail max_retries msg d =
     (if sd_retry_count d + 1 < max_retries
        then d\<lparr>sd_retry_count := sd_retry_count d + 1, sd_status := delivery_pending\<rparr>
      else d\<lparr>sd_retry_count := sd_retry_count d + 1, sd_status := delivery_failed,
              sd_error_message := Some msg\<rparr>)"

text \<open>
  Modelled from the spec: the \<open>WHERE\<close> clause of each write of the missing worker and
  reaper: the row with the given id; for the reaper, the rows in \<open>Sending\<close> that are stale
  (section 4.6).
\<close>

fun step_where :: "delivery_step \<Rightarrow> scheduled_delivery \<Rightarrow> bool" where
  "step_where (Start_sending i) d = (sd_id d = i)"
| "step_where (Record_sent i receipt) d = (sd_id d = i)"
| "step_where (Record_failure i msg) d = (sd_id d = i)"
| "step_where (Record_fatal i msg) d = (sd_id d = i)"
| "step_where (Reap stale) d = (sd_status d = sending \<and> stale d)"

text \<open>
  Modelled from the spec: the \<open>SET\<close> clause of each write of the missing worker and reaper
  (section 4.4): \<open>Sending\<close>; \<open>Sent\<close> with \<open>sentAt = now\<close> and the receipt id; the retry
  policy on a retryable failure; \<open>Failed\<close> with the error message on a fatal one; the
  retry policy again for a reaped row (section 4.6).
\<close>

fun step_set :: "int \<Rightarrow> timestamptz \<Rightarrow> delivery_step \<Rightarrow> scheduled_delivery \<Rightarrow> scheduled_delivery" where
  "step_set max_retries now (Start_sending i) d = d\<lparr>sd_status := sending\<rparr>"
| "step_set max_retries now (Record_sent i receipt) d =
     d\<lparr>sd_status := sent, sd_sent_at := Some now, sd_resend_email_id := Some receipt\<rparr>"
| "step_set max_retries now (Record_failure i msg) d = retry_or_fail max_retries msg d"
| "step_set max_retries now (Record_fatal i msg) d =
     d\<lparr>sd_status := delivery_failed, sd_error_message := Some msg\<rparr>"
| "step_set max_retries now (Reap stale) d = retry_or_fail max_retries ''stale claim'' d"

text \<open>
  Modelled from the spec: a write of the missing worker or reaper at a given time, as the
  \<open>UPDATE\<close> statement it issues.
\<close>

definition delivery_step_statement :: "int \<Rightarrow> timestamptz \<times> delivery_step \<Rightarrow> delivery_statement" where
  "delivery_step_statement max_retries ts =
     Update (fst ts) (step_where (snd ts)) (step_set max_retries (fst ts) (snd ts))"

subsection \<open>Sample deliveries\<close>

definition delivery_template :: scheduled_delivery where
  "delivery_template =
     \<lparr>sd_id = 0, sd_story_id = 0, sd_user_id = 1, sd_user_email = ''reader@example.com'',
      sd_deliver_at = 0, sd_timezone = ''UTC'', sd_status = delivery_pending,
      sd_sent_at = None, sd_resend_email_id = None, sd_error_message = None,
      sd_retry_count = 0, sd_created_at = 0, sd_updated_at = 0\<rparr>"

definition delivery_a :: scheduled_delivery where
  "delivery_a = delivery_template\<lparr>sd_id := 11, sd_story_id := 7, sd_deliver_at := 800,
     sd_created_at := 300, sd_updated_at := 300\<rparr>"

definition delivery_b :: scheduled_delivery where
  "delivery_b = delivery_template\<lparr>sd_id := 12, sd_story_id := 7, sd_deliver_at := 700,
     sd_created_at := 200, sd_updated_at := 200\<rparr>"

definition delivery_c :: scheduled_delivery where
  "delivery_c = delivery_template\<lparr>sd_id := 13, sd_story_id := 9, sd_deliver_at := 750,
     sd_created_at := 250, sd_updated_at := 250\<rparr>"

section \<open>Properties of \<open>claim_pending_job\<close>\<close>

lemma sort_key_head:
  assumes "sort_key f xs = y # ys"
  shows "y \<in> set xs \<and> (\<forall>x \<in> set xs. f y \<le> f x)"
proof -
  have "set (y # ys) = set xs"
    using assms set_sort [of f xs] by simp
  moreover have "sorted (map f (y # ys))"
    using assms sorted_sort_key [of f xs] by simp
  ultimately show ?thesis by auto
qed

lemma oldest_pending_None:
  "oldest_pending tbl = None \<longleftrightarrow> (\<forall>sj \<in> set tbl. \<not> pending_below_limit sj)"
proof -
  have "sort_key sj_created_at (filter pending_below_limit tbl) = []
        \<longleftrightarrow> filter pending_below_limit tbl = []"
    by (metis length_sort length_0_conv)
  then show ?thesis
    by (auto simp: oldest_pending_def filter_empty_conv split: list.splits)
qed

lemma oldest_pending_Some:
  assumes "oldest_pending tbl = Some k"
  shows "\<exists>sj \<in> set tbl. sj_id sj = k \<and> pending_below_limit sj \<and>
           (\<forall>other \<in> set tbl. pending_below_limit other \<longrightarrow>
              sj_created_at sj \<le> sj_created_at other)"
proof -
  from assms obtain sj rest where
    s: "sort_key sj_created_at (filter pending_below_limit tbl) = sj # rest" and k: "sj_id sj = k"
    by (auto simp: oldest_pending_def split: list.splits)
  from sort_key_head [OF s] k show ?thesis by auto
qed

lemma map_update_one:
  assumes "distinct (map f xs)" and "i < length xs"
  shows "map (\<lambda>x. if f x = f (xs ! i) then g x else x) xs = xs[i := g (xs ! i)]"
proof (rule nth_equalityI)
  show "length (map (\<lambda>x. if f x = f (xs ! i) then g x else x) xs) = length (xs[i := g (xs ! i)])"
    by simp
next
  fix n assume "n < length (map (\<lambda>x. if f x = f (xs ! i) then g x else x) xs)"
  then have n: "n < length xs" by simp
  have "f (xs ! n) = f (xs ! i) \<longleftrightarrow> n = i"
    using assms n nth_eq_iff_index_eq [of "map f xs" n i] by auto
  then show "map (\<lambda>x. if f x = f (xs ! i) then g x else x) xs ! n = xs[i := g (xs ! i)] ! n"
    using n by (auto simp: nth_list_update)
qed

lemma filter_key_one:
  assumes "distinct (map f xs)" and "i < length xs"
  shows "filter (\<lambda>x. f x = f (xs ! i)) xs = [xs ! i]"
  using assms
proof (induction xs arbitrary: i)
  case Nil
  then show ?case by simp
next
  case (Cons a xs)
  show ?case
  proof (cases i)
    case 0
    have "f a \<notin> f ` set xs" using Cons.prems(1) by simp
    then have "\<forall>x \<in> set xs. f x \<noteq> f a" by (metis imageI)
    then have "filter (\<lambda>x. f x = f a) xs = []" by (simp add: filter_empty_conv)
    with 0 show ?thesis by simp
  next
    case (Suc j)
    then have j: "j < length xs" using Cons.prems(2) by simp
    then have "xs ! j \<in> set xs" by simp
    then have "f a \<noteq> f (xs ! j)" using Cons.prems(1) by auto
    moreover have "filter (\<lambda>x. f x = f (xs ! j)) xs = [xs ! j]"
      using Cons.IH [of j] Cons.prems(1) j by simp
    ultimately show ?thesis using Suc by simp
  qed
qed

text \<open>
  C6. When no row has status \<open>pending\<close> and \<open>retry_count\<close> below 3, the call returns the
  empty result and the table is exactly as it was.
\<close>

theorem claim_pending_job_none_eligible:
  assumes "\<forall>sj \<in> set tbl. \<not> (sj_status sj = pending \<and> sj_retry_count sj < 3)"
  shows "claim_pending_job worker_id now tbl = (tbl, None)"
proof -
  have "oldest_pending tbl = None"
    using assms by (simp add: oldest_pending_None pending_below_limit_def)
  then show ?thesis by (simp add: claim_pending_job_def)
qed

theorem claim_pending_job_none_eligible_witness:
  "sj_status job_c = pending \<and> sj_retry_count job_c = 3 \<and> sj_status job_d = running \<and>
   claim_pending_job (Some ''worker-1'') 100 [job_c, job_d] = ([job_c, job_d], None)"
proof -
  have c: "sj_status job_c = pending \<and> sj_retry_count job_c = 3"
    by (simp add: job_c_def job_template_def)
  have d: "sj_status job_d = running"
    by (simp add: job_d_def job_template_def)
  have h: "\<forall>sj \<in> set [job_c, job_d]. \<not> (sj_status sj = pending \<and> sj_retry_count sj < 3)"
    using c d by simp
  from claim_pending_job_none_eligible [OF h, of "Some ''worker-1''" 100] c d show ?thesis by simp
qed

text \<open>
  C2. When some row has status \<open>pending\<close> and \<open>retry_count\<close> below 3, one call picks such
  a row whose \<open>created_at\<close> is the oldest among them, rewrites that single row (status
  \<open>running\<close>, \<open>claimed_by\<close> the \<open>worker_id\<close> passed, \<open>claimed_at\<close> and \<open>started_at\<close> the current time, all
  other columns and all other rows untouched) and returns its columns. The primary key
  makes the ids of the table distinct.
\<close>

theorem claim_pending_job_claims_oldest:
  assumes "distinct (map sj_id tbl)"
    and "\<exists>sj \<in> set tbl. sj_status sj = pending \<and> sj_retry_count sj < 3"
  shows "\<exists>i < length tbl.
           sj_status (tbl ! i) = pending \<and> sj_retry_count (tbl ! i) < 3 \<and>
           (\<forall>other \<in> set tbl. sj_status other = pending \<and> sj_retry_count other < 3 \<longrightarrow>
              sj_created_at (tbl ! i) \<le> sj_created_at other) \<and>
           claim_pending_job worker_id now tbl =
             (tbl[i := (tbl ! i)\<lparr>sj_status := running,
                                 sj_claimed_by := worker_id,
                                 sj_claimed_at := Some now,
                                 sj_started_at := Some now\<rparr>],
              Some \<lparr>cj_id = sj_id (tbl ! i),
                    cj_job_id = sj_job_id (tbl ! i),
                    cj_story_bible = sj_story_bible (tbl ! i),
                    cj_user_email = sj_user_email (tbl ! i),
                    cj_settings = sj_settings (tbl ! i),
                    cj_created_at = sj_created_at (tbl ! i),
                    cj_retry_count = sj_retry_count (tbl ! i)\<rparr>)"
proof -
  have "oldest_pending tbl \<noteq> None"
    using assms(2) by (auto simp: oldest_pending_None pending_below_limit_def)
  then obtain k where k: "oldest_pending tbl = Some k" by auto
  from oldest_pending_Some [OF k] obtain sj where
    sj: "sj \<in> set tbl" "sj_id sj = k" "pending_below_limit sj"
    and old: "\<forall>other \<in> set tbl. pending_below_limit other \<longrightarrow>
                sj_created_at sj \<le> sj_created_at other"
    by auto
  from sj(1) obtain i where i: "i < length tbl" "tbl ! i = sj"
    by (auto simp: in_set_conv_nth)
  have kk: "k = sj_id (tbl ! i)" using i sj(2) by simp
  have upd: "map (\<lambda>x. if sj_id x = k then claim_row worker_id now x else x) tbl
             = tbl[i := claim_row worker_id now (tbl ! i)]"
    unfolding kk using map_update_one [OF assms(1) i(1)] .
  have flt: "filter (\<lambda>x. sj_id x = k) tbl = [tbl ! i]"
    unfolding kk using filter_key_one [OF assms(1) i(1)] .
  have res: "claim_pending_job worker_id now tbl =
               (tbl[i := claim_row worker_id now (tbl ! i)],
                Some (returning (claim_row worker_id now (tbl ! i))))"
    by (simp add: claim_pending_job_def k upd flt)
  have "sj_status (tbl ! i) = pending \<and> sj_retry_count (tbl ! i) < 3"
    using sj(3) i(2) by (simp add: pending_below_limit_def)
  moreover have "\<forall>other \<in> set tbl. sj_status other = pending \<and> sj_retry_count other < 3 \<longrightarrow>
                   sj_created_at (tbl ! i) \<le> sj_created_at other"
    using old i(2) by (simp add: pending_below_limit_def)
  moreover note res
  ultimately show ?thesis
    using i(1) by (auto simp: claim_row_def returning_def)
qed

theorem claim_pending_job_claims_oldest_witness:
  "distinct (map sj_id [job_a, job_b, job_c, job_d]) \<and>
   (\<exists>sj \<in> set [job_a, job_b, job_c, job_d]. sj_status sj = pending \<and> sj_retry_count sj < 3) \<and>
   (\<exists>i < length [job_a, job_b, job_c, job_d].
      sj_created_at ([job_a, job_b, job_c, job_d] ! i) \<le> sj_created_at job_a \<and>
      sj_created_at ([job_a, job_b, job_c, job_d] ! i) \<le> sj_created_at job_b \<and>
      fst (claim_pending_job (Some ''worker-1'') 100 [job_a, job_b, job_c, job_d]) ! i =
        ([job_a, job_b, job_c, job_d] ! i)\<lparr>sj_status := running,
           sj_claimed_by := Some ''worker-1'', sj_claimed_at := Some 100,
           sj_started_at := Some 100\<rparr> \<and>
      map_option cj_id (snd (claim_pending_job (Some ''worker-1'') 100 [job_a, job_b, job_c, job_d])) =
        Some (sj_id ([job_a, job_b, job_c, job_d] ! i)))"
proof -
  have d: "distinct (map sj_id [job_a, job_b, job_c, job_d])"
    by (simp add: job_a_def job_b_def job_c_def job_d_def job_template_def)
  have e: "\<exists>sj \<in> set [job_a, job_b, job_c, job_d]. sj_status sj = pending \<and> sj_retry_count sj < 3"
    by (simp add: job_a_def job_template_def)
  have a: "sj_status job_a = pending \<and> sj_retry_count job_a < 3"
    by (simp add: job_a_def job_template_def)
  have b: "sj_status job_b = pending \<and> sj_retry_count job_b < 3"
    by (simp add: job_b_def job_template_def)
  from claim_pending_job_claims_oldest [OF d e, of "Some ''worker-1''" 100]
  obtain i where i: "i < length [job_a, job_b, job_c, job_d]"
    and m: "\<forall>other \<in> set [job_a, job_b, job_c, job_d].
              sj_status other = pending \<and> sj_retry_count other < 3 \<longrightarrow>
              sj_created_at ([job_a, job_b, job_c, job_d] ! i) \<le> sj_created_at other"
    and r: "claim_pending_job (Some ''worker-1'') 100 [job_a, job_b, job_c, job_d] =
             ([job_a, job_b, job_c, job_d]
                [i := ([job_a, job_b, job_c, job_d] ! i)\<lparr>sj_status := running,
                        sj_claimed_by := Some ''worker-1'',
                        sj_claimed_at := Some 100,
                        sj_started_at := Some 100\<rparr>],
              Some \<lparr>cj_id = sj_id ([job_a, job_b, job_c, job_d] ! i),
                    cj_job_id = sj_job_id ([job_a, job_b, job_c, job_d] ! i),
                    cj_story_bible = sj_story_bible ([job_a, job_b, job_c, job_d] ! i),
                    cj_user_email = sj_user_email ([job_a, job_b, job_c, job_d] ! i),
                    cj_settings = sj_settings ([job_a, job_b, job_c, job_d] ! i),
                    cj_created_at = sj_created_at ([job_a, job_b, job_c, job_d] ! i),
                    cj_retry_count = sj_retry_count ([job_a, job_b, job_c, job_d] ! i)\<rparr>)"
    by blast
  have ma: "sj_created_at ([job_a, job_b, job_c, job_d] ! i) \<le> sj_created_at job_a"
    using m a by simp
  have mb: "sj_created_at ([job_a, job_b, job_c, job_d] ! i) \<le> sj_created_at job_b"
    using m b by simp
  have f: "fst (claim_pending_job (Some ''worker-1'') 100 [job_a, job_b, job_c, job_d]) ! i =
        ([job_a, job_b, job_c, job_d] ! i)\<lparr>sj_status := running,
           sj_claimed_by := Some ''worker-1'', sj_claimed_at := Some 100,
           sj_started_at := Some 100\<rparr>"
    unfolding r fst_conv using i by (rule nth_list_update_eq)
  have g: "map_option cj_id (snd (claim_pending_job (Some ''worker-1'') 100 [job_a, job_b, job_c, job_d])) =
        Some (sj_id ([job_a, job_b, job_c, job_d] ! i))"
    unfolding r by simp
  from d e i ma mb f g show ?thesis by blast
qed

section \<open>The retry limit, the claim columns and the clock\<close>

lemma distinct_map_eq:
  assumes "distinct (map f xs)" and "x \<in> set xs" and "y \<in> set xs" and "f x = f y"
  shows "x = y"
proof -
  have "inj_on f (set xs)" using assms(1) by (simp add: distinct_map)
  then show ?thesis using assms(2-4) by (simp add: inj_on_def)
qed

lemma claim_row_keeps:
  "sj_id (claim_row w now sj) = sj_id sj"
  "sj_retry_count (claim_row w now sj) = sj_retry_count sj"
  by (simp_all add: claim_row_def)

lemma claim_pending_job_ids:
  "map sj_id (fst (claim_pending_job w now tbl)) = map sj_id tbl"
  by (cases "oldest_pending tbl") (simp_all add: claim_pending_job_def claim_row_keeps comp_def)

lemma claim_pending_job_retry_counts:
  "map sj_retry_count (fst (claim_pending_job w now tbl)) = map sj_retry_count tbl"
  by (cases "oldest_pending tbl") (simp_all add: claim_pending_job_def claim_row_keeps comp_def)

lemma claim_pending_job_result:
  assumes "snd (claim_pending_job w now tbl) = Some cj"
  shows "\<exists>sj \<in> set tbl. oldest_pending tbl = Some (sj_id sj) \<and> cj = returning (claim_row w now sj)"
proof (cases "oldest_pending tbl")
  case None
  with assms show ?thesis by (simp add: claim_pending_job_def)
next
  case (Some k)
  with assms obtain sj rest where f: "filter (\<lambda>sj. sj_id sj = k) tbl = sj # rest"
    and cj: "cj = returning (claim_row w now sj)"
    by (auto simp: claim_pending_job_def split: list.splits)
  from f have "sj \<in> set (filter (\<lambda>sj. sj_id sj = k) tbl)" by simp
  then have "sj \<in> set tbl" "sj_id sj = k" by auto
  with Some cj show ?thesis by auto
qed

lemma claim_pending_job_skips_exhausted:
  assumes d: "distinct (map sj_id tbl)" and m: "sj \<in> set tbl" and r: "3 \<le> sj_retry_count sj"
  shows "sj \<in> set (fst (claim_pending_job w now tbl)) \<and>
         (\<forall>cj. snd (claim_pending_job w now tbl) = Some cj \<longrightarrow>
            cj_id cj \<noteq> sj_id sj \<and> cj_retry_count cj < 3)"
proof (cases "oldest_pending tbl")
  case None
  then show ?thesis using m by (simp add: claim_pending_job_def)
next
  case (Some k)
  from oldest_pending_Some [OF Some] obtain c where
    c: "c \<in> set tbl" "sj_id c = k" "pending_below_limit c" by auto
  have ne: "sj_id sj \<noteq> k"
  proof
    assume "sj_id sj = k"
    with c(2) have "sj_id sj = sj_id c" by simp
    with d m c(1) have "sj = c" by (rule distinct_map_eq)
    with c(3) r show False by (simp add: pending_below_limit_def)
  qed
  have keep: "sj \<in> set (fst (claim_pending_job w now tbl))"
    using m ne by (force simp: claim_pending_job_def Some)
  have res: "\<forall>cj. snd (claim_pending_job w now tbl) = Some cj \<longrightarrow>
            cj_id cj \<noteq> sj_id sj \<and> cj_retry_count cj < 3"
  proof (intro allI impI)
    fix cj assume "snd (claim_pending_job w now tbl) = Some cj"
    from claim_pending_job_result [OF this] Some obtain x where
      x: "x \<in> set tbl" "sj_id x = k" "cj = returning (claim_row w now x)" by auto
    have "x = c" using d x(1) c(1) by (rule distinct_map_eq) (simp add: x(2) c(2))
    with x(3) c ne show "cj_id cj \<noteq> sj_id sj \<and> cj_retry_count cj < 3"
      by (simp add: returning_def claim_row_def pending_below_limit_def)
  qed
  from keep res show ?thesis by blast
qed

text \<open>
  C4, as the code has it. The retry limit is the constant 3 in the \<open>WHERE\<close> clause of
  \<open>claim_pending_job\<close>. A row whose \<open>retry_count\<close> has reached 3 is never returned by
  any later call, whatever its status: it stays in the table as it is, every job a call
  returns has another id and a \<open>retry_count\<close> below 3, and no call changes any row's
  \<open>retry_count\<close>.
\<close>

theorem claim_never_returns_exhausted_job:
  assumes "distinct (map sj_id tbl)" and "sj \<in> set tbl" and "3 \<le> sj_retry_count sj"
  shows "sj \<in> set (fst (claim_calls calls tbl)) \<and>
         map sj_retry_count (fst (claim_calls calls tbl)) = map sj_retry_count tbl \<and>
         (\<forall>cj. Some cj \<in> set (snd (claim_calls calls tbl)) \<longrightarrow>
            cj_id cj \<noteq> sj_id sj \<and> cj_retry_count cj < 3)"
  using assms
proof (induction calls arbitrary: tbl)
  case Nil
  then show ?case by simp
next
  case (Cons c calls)
  obtain w now where c: "c = (w, now)" by (cases c)
  obtain tbl' r where s: "claim_pending_job w now tbl = (tbl', r)" by (cases "claim_pending_job w now tbl")
  have d': "distinct (map sj_id tbl')"
    using claim_pending_job_ids [of w now tbl] s Cons.prems(1) by simp
  have step: "sj \<in> set tbl' \<and> (\<forall>cj. r = Some cj \<longrightarrow> cj_id cj \<noteq> sj_id sj \<and> cj_retry_count cj < 3)"
    using claim_pending_job_skips_exhausted [OF Cons.prems, of w now] s by simp
  have rc: "map sj_retry_count tbl' = map sj_retry_count tbl"
    using claim_pending_job_retry_counts [of w now tbl] s by simp
  from step have m': "sj \<in> set tbl'" by simp
  note ih = Cons.IH [OF d' m' Cons.prems(3)]
  obtain tbl'' rs where t: "claim_calls calls tbl' = (tbl'', rs)" by (cases "claim_calls calls tbl'")
  have cc: "claim_calls (c # calls) tbl = (tbl'', r # rs)"
    by (simp add: c s t)
  show ?case
    using ih step rc unfolding cc t by auto
qed


text \<open>
  C4, as the specification words it, fails on the table: \<open>story_jobs\<close> has no
  \<open>max_retries\<close> column and no constraint on \<open>retry_count\<close>, so it holds a pending row
  whose \<open>retry_count\<close> is 4, above the limit of 3 that the claiming function uses; the
  function leaves that row as it is, still \<open>pending\<close>, not \<open>failed\<close>.
\<close>

theorem retry_bound_counterexample:
  "sj_retry_count job_e = 4 \<and> sj_status job_e = pending \<and>
   insert_story_job job_e [] = Inr [job_e] \<and>
   claim_pending_job (Some ''worker-1'') 100 [job_e] = ([job_e], None)"
  by (simp add: job_e_def job_template_def insert_story_job_def progress_percent_check_def
      claim_pending_job_def oldest_pending_def pending_below_limit_def)

theorem claim_never_returns_exhausted_job_witness:
  "job_c \<in> set (fst (claim_calls [(Some ''worker-1'', 100), (Some ''worker-2'', 101)] [job_a, job_c])) \<and>
   map sj_retry_count (fst (claim_calls [(Some ''worker-1'', 100), (Some ''worker-2'', 101)] [job_a, job_c]))
     = map sj_retry_count [job_a, job_c] \<and>
   map (map_option cj_id) (snd (claim_calls [(Some ''worker-1'', 100), (Some ''worker-2'', 101)] [job_a, job_c]))
     = [Some 1, None]"
proof -
  have d: "distinct (map sj_id [job_a, job_c])"
    by (simp add: job_a_def job_c_def job_template_def)
  have m: "job_c \<in> set [job_a, job_c]" by simp
  have r: "3 \<le> sj_retry_count job_c" by (simp add: job_c_def job_template_def)
  have e: "map (map_option cj_id)
             (snd (claim_calls [(Some ''worker-1'', 100), (Some ''worker-2'', 101)] [job_a, job_c]))
           = [Some 1, None]"
    by (simp add: claim_pending_job_def oldest_pending_def pending_below_limit_def
        job_a_def job_c_def job_template_def claim_row_def returning_def)
  from claim_never_returns_exhausted_job [OF d m r, of "[(Some ''worker-1'', 100), (Some ''worker-2'', 101)]"] e
  show ?thesis by simp
qed

text \<open>
  C5, as the specification words it, fails on the table: no constraint ties
  \<open>claimed_by\<close> and \<open>claimed_at\<close> to \<open>status\<close>, so the table accepts a running row
  with both columns null.
\<close>

theorem claim_fields_counterexample:
  "sj_status job_g = running \<and> sj_claimed_by job_g = None \<and> sj_claimed_at job_g = None \<and>
   insert_story_job job_g [job_a] = Inr [job_a, job_g]"
  by (simp add: job_g_def job_a_def job_template_def insert_story_job_def
      progress_percent_check_def)

lemma claim_row_fields_ok: "w \<noteq> None \<Longrightarrow> claim_fields_ok (claim_row w now sj)"
  by (simp add: claim_fields_ok_def claim_row_def)

lemma claim_pending_job_null_worker:
  "claim_fields_ok job_a \<and>
   fst (claim_pending_job None 100 [job_a]) =
     [job_a\<lparr>sj_status := running, sj_claimed_by := None, sj_claimed_at := Some 100,
             sj_started_at := Some 100\<rparr>] \<and>
   claim_fields_ok (hd (fst (claim_pending_job None 100 [job_a]))) = False"
  by (simp add: claim_fields_ok_def claim_pending_job_def oldest_pending_def
      pending_below_limit_def claim_row_def job_a_def job_template_def)

text \<open>
  C5, as the code has it. Called with a \<open>worker_id\<close> that is not null,
  \<open>claim_pending_job\<close> keeps the relation between \<open>status\<close> and the claim columns: when
  every row satisfies it before the call, every row satisfies it after, and the row of
  the returned job is running with \<open>claimed_by\<close> the caller and \<open>claimed_at\<close> the time
  of the call. Called with a null \<open>worker_id\<close> it leaves a running row whose
  \<open>claimed_by\<close> is null, as \<open>claim_pending_job_null_worker\<close> shows.
\<close>

theorem claim_pending_job_keeps_claim_fields:
  assumes "\<forall>sj \<in> set tbl. claim_fields_ok sj" and "worker_id \<noteq> None"
  shows "(\<forall>sj \<in> set (fst (claim_pending_job worker_id now tbl)). claim_fields_ok sj) \<and>
         (\<forall>cj. snd (claim_pending_job worker_id now tbl) = Some cj \<longrightarrow>
            (\<exists>sj \<in> set (fst (claim_pending_job worker_id now tbl)).
               sj_id sj = cj_id cj \<and> sj_status sj = running \<and>
               sj_claimed_by sj = worker_id \<and> sj_claimed_at sj = Some now))"
proof (cases "oldest_pending tbl")
  case None
  then show ?thesis using assms by (simp add: claim_pending_job_def)
next
  case (Some k)
  have inv: "\<forall>sj \<in> set (fst (claim_pending_job worker_id now tbl)). claim_fields_ok sj"
    using assms by (auto simp: claim_pending_job_def Some claim_row_fields_ok)
  have row: "\<forall>cj. snd (claim_pending_job worker_id now tbl) = Some cj \<longrightarrow>
            (\<exists>sj \<in> set (fst (claim_pending_job worker_id now tbl)).
               sj_id sj = cj_id cj \<and> sj_status sj = running \<and>
               sj_claimed_by sj = worker_id \<and> sj_claimed_at sj = Some now)"
  proof (intro allI impI)
    fix cj assume "snd (claim_pending_job worker_id now tbl) = Some cj"
    from claim_pending_job_result [OF this] Some obtain x where
      x: "x \<in> set tbl" "sj_id x = k" "cj = returning (claim_row worker_id now x)" by auto
    have "claim_row worker_id now x \<in> set (fst (claim_pending_job worker_id now tbl))"
      using x(1,2) by (force simp: claim_pending_job_def Some)
    moreover have "sj_id (claim_row worker_id now x) = cj_id cj"
      by (simp add: x(3) returning_def)
    moreover have "sj_status (claim_row worker_id now x) = running \<and>
        sj_claimed_by (claim_row worker_id now x) = worker_id \<and>
        sj_claimed_at (claim_row worker_id now x) = Some now"
      by (simp add: claim_row_def)
    ultimately show "\<exists>sj \<in> set (fst (claim_pending_job worker_id now tbl)).
               sj_id sj = cj_id cj \<and> sj_status sj = running \<and>
               sj_claimed_by sj = worker_id \<and> sj_claimed_at sj = Some now"
      by blast
  qed
  from inv row show ?thesis by blast
qed

theorem claim_pending_job_keeps_claim_fields_witness:
  "claim_fields_ok job_a \<and> claim_fields_ok job_d \<and>
   list_all claim_fields_ok (fst (claim_pending_job (Some ''worker-1'') 100 [job_a, job_d])) \<and>
   map_option cj_id (snd (claim_pending_job (Some ''worker-1'') 100 [job_a, job_d])) = Some 1"
proof -
  have a: "claim_fields_ok job_a"
    by (simp add: claim_fields_ok_def job_a_def job_template_def)
  have d: "claim_fields_ok job_d"
    by (simp add: claim_fields_ok_def job_d_def job_template_def)
  have h: "\<forall>sj \<in> set [job_a, job_d]. claim_fields_ok sj" using a d by simp
  have e: "map_option cj_id (snd (claim_pending_job (Some ''worker-1'') 100 [job_a, job_d])) = Some 1"
    by (simp add: claim_pending_job_def oldest_pending_def pending_below_limit_def
        job_a_def job_d_def job_template_def claim_row_def returning_def)
  have w: "Some ''worker-1'' \<noteq> None" by simp
  from claim_pending_job_keeps_claim_fields [OF h w, of 100] a d e
  show ?thesis by (simp add: list_all_iff)
qed





section \<open>The duplicate clean-up of \<open>scheduled_deliveries\<close>\<close>

lemma distinct_on_subset: "set (distinct_on k xs) \<subseteq> set xs"
  by (induction k xs rule: distinct_on.induct) auto

lemma distinct_on_head: "x \<in> set (distinct_on k (x # xs))"
  by (induction xs arbitrary: x) auto

lemma distinct_on_sorted:
  fixes k :: "'a \<Rightarrow> 'k::linorder" and c :: "'a \<Rightarrow> 'c::linorder"
  assumes "sorted (map (\<lambda>d. (k d, c d)) xs)"
  shows "(\<forall>x \<in> set xs. \<exists>f \<in> set (distinct_on k xs). k f = k x \<and> c f \<le> c x) \<and>
         distinct (map k (distinct_on k xs))"
  using assms
proof (induction k xs rule: distinct_on.induct)
  case (1 k)
  then show ?case by simp
next
  case (2 k x)
  then show ?case by simp
next
  case (3 k x y ys)
  have xy: "(k x, c x) \<le> (k y, c y)" using "3.prems" by simp
  show ?case
  proof (cases "k x = k y")
    case True
    have s: "sorted (map (\<lambda>d. (k d, c d)) (x # ys))" using "3.prems" by auto
    note ih = "3.IH"(1) [OF True s]
    have "c x \<le> c y" using xy True by simp
    moreover have "x \<in> set (distinct_on k (x # ys))" by (rule distinct_on_head)
    ultimately have "\<exists>f \<in> set (distinct_on k (x # ys)). k f = k y \<and> c f \<le> c y"
      using True by blast
    then show ?thesis using ih True by auto
  next
    case False
    have s: "sorted (map (\<lambda>d. (k d, c d)) (y # ys))" using "3.prems" by simp
    note ih = "3.IH"(2) [OF False s]
    have lt: "k x < k y" using xy False by auto
    have "\<forall>z \<in> set (y # ys). k x < k z"
    proof
      fix z assume "z \<in> set (y # ys)"
      then have "(k y, c y) \<le> (k z, c z)" using "3.prems" by auto
      then have "k y \<le> k z" by auto
      with lt show "k x < k z" by simp
    qed
    then have "\<forall>z \<in> set (distinct_on k (y # ys)). k x \<noteq> k z"
      using distinct_on_subset [of k "y # ys"] by fastforce
    then have "k x \<notin> k ` set (distinct_on k (y # ys))" by auto
    then show ?thesis using ih False by auto
  qed
qed

lemma filter_eq_single:
  assumes "distinct xs" and "x \<in> set xs"
  shows "filter (\<lambda>r. r = x) xs = [x]"
  using assms
proof (induction xs)
  case Nil
  then show ?case by simp
next
  case (Cons a xs)
  show ?case
  proof (cases "a = x")
    case True
    then have "x \<notin> set xs" using Cons.prems(1) by simp
    then have "filter (\<lambda>r. r = x) xs = []" by (auto simp: filter_empty_conv)
    with True show ?thesis by simp
  next
    case False
    then show ?thesis using Cons by simp
  qed
qed

lemma first_deliveries_props:
  "set (first_deliveries tbl) \<subseteq> set tbl"
  "\<forall>x \<in> set tbl. \<exists>f \<in> set (first_deliveries tbl).
      sd_story_id f = sd_story_id x \<and> sd_created_at f \<le> sd_created_at x"
  "distinct (map sd_story_id (first_deliveries tbl))"
proof -
  let ?S = "sort_key (\<lambda>d. (sd_story_id d, sd_created_at d)) tbl"
  have s: "sorted (map (\<lambda>d. (sd_story_id d, sd_created_at d)) ?S)" by (rule sorted_sort_key)
  show "set (first_deliveries tbl) \<subseteq> set tbl"
    using distinct_on_subset [of sd_story_id ?S] by (simp add: first_deliveries_def)
  from distinct_on_sorted [OF s]
  show "\<forall>x \<in> set tbl. \<exists>f \<in> set (first_deliveries tbl).
      sd_story_id f = sd_story_id x \<and> sd_created_at f \<le> sd_created_at x"
    and "distinct (map sd_story_id (first_deliveries tbl))"
    by (simp_all add: first_deliveries_def)
qed

lemma delete_duplicate_deliveries_eq:
  assumes "distinct (map sd_id tbl)"
  shows "delete_duplicate_deliveries tbl = filter (\<lambda>d. d \<in> set (first_deliveries tbl)) tbl"
proof -
  have "\<forall>d \<in> set tbl. sd_id d \<in> set (first_delivery_ids tbl) \<longleftrightarrow> d \<in> set (first_deliveries tbl)"
  proof
    fix d assume d: "d \<in> set tbl"
    show "sd_id d \<in> set (first_delivery_ids tbl) \<longleftrightarrow> d \<in> set (first_deliveries tbl)"
    proof
      assume "sd_id d \<in> set (first_delivery_ids tbl)"
      then obtain f where f: "f \<in> set (first_deliveries tbl)" "sd_id f = sd_id d"
        by (auto simp: first_delivery_ids_def)
      then have "f \<in> set tbl" using first_deliveries_props(1) by blast
      with assms have "f = d" using d f(2) by (rule distinct_map_eq)
      with f(1) show "d \<in> set (first_deliveries tbl)" by simp
    next
      assume "d \<in> set (first_deliveries tbl)"
      then show "sd_id d \<in> set (first_delivery_ids tbl)"
        by (simp add: first_delivery_ids_def)
    qed
  qed
  then have "\<And>d. d \<in> set tbl \<Longrightarrow>
      (sd_id d \<in> set (first_delivery_ids tbl)) = (d \<in> set (first_deliveries tbl))" by blast
  then show ?thesis
    unfolding delete_duplicate_deliveries_def by (rule filter_cong [OF refl])
qed

lemma delete_duplicate_deliveries_unique:
  assumes "distinct (map sd_id tbl)"
  shows "distinct (map sd_story_id (delete_duplicate_deliveries tbl))"
proof -
  have d: "distinct tbl" using assms by (simp add: distinct_map)
  have "inj_on sd_story_id (set (first_deliveries tbl))"
    using first_deliveries_props(3) [of tbl] by (simp add: distinct_map)
  then have "inj_on sd_story_id (set (filter (\<lambda>d. d \<in> set (first_deliveries tbl)) tbl))"
    by (rule inj_on_subset) auto
  then show ?thesis
    using d by (simp add: delete_duplicate_deliveries_eq [OF assms] distinct_map)
qed

text \<open>
  C10. Run on a table that holds several rows for one \<open>story_id\<close> (ids distinct, as
  the primary key makes them), the clean-up leaves exactly one row for every
  \<open>story_id\<close> the table had: a row of the table, with the earliest \<open>created_at\<close> among
  the rows of that \<open>story_id\<close>.
\<close>

theorem delete_duplicate_deliveries_keeps_first:
  assumes "distinct (map sd_id tbl)" and "d \<in> set tbl"
  shows "\<exists>s. filter (\<lambda>r. sd_story_id r = sd_story_id d) (delete_duplicate_deliveries tbl) = [s] \<and>
             s \<in> set tbl \<and> sd_story_id s = sd_story_id d \<and>
             (\<forall>other \<in> set tbl. sd_story_id other = sd_story_id d \<longrightarrow>
                sd_created_at s \<le> sd_created_at other)"
proof -
  let ?F = "first_deliveries tbl"
  from first_deliveries_props(2) assms(2) obtain f where
    f: "f \<in> set ?F" "sd_story_id f = sd_story_id d" by blast
  have ft: "f \<in> set tbl" using f(1) first_deliveries_props(1) by blast
  have uniq: "g = f" if "g \<in> set ?F" and "sd_story_id g = sd_story_id d" for g
    using first_deliveries_props(3) [of tbl] that(1) f(1)
    by (rule distinct_map_eq) (simp add: that(2) f(2))
  have old: "\<forall>other \<in> set tbl. sd_story_id other = sd_story_id d \<longrightarrow>
                sd_created_at f \<le> sd_created_at other"
  proof (intro ballI impI)
    fix other assume o: "other \<in> set tbl" "sd_story_id other = sd_story_id d"
    from first_deliveries_props(2) o(1) obtain g where
      g: "g \<in> set ?F" "sd_story_id g = sd_story_id other" "sd_created_at g \<le> sd_created_at other"
      by blast
    then have "g = f" using uniq o(2) by simp
    with g(3) show "sd_created_at f \<le> sd_created_at other" by simp
  qed
  have dt: "distinct tbl" using assms(1) by (simp add: distinct_map)
  have "filter (\<lambda>r. sd_story_id r = sd_story_id d) (delete_duplicate_deliveries tbl)
        = filter (\<lambda>r. r \<in> set ?F \<and> sd_story_id r = sd_story_id d) tbl"
    by (simp add: delete_duplicate_deliveries_eq [OF assms(1)] conj_commute)
  also have "\<dots> = filter (\<lambda>r. r = f) tbl"
  proof (rule filter_cong [OF refl])
    fix r assume "r \<in> set tbl"
    show "(r \<in> set ?F \<and> sd_story_id r = sd_story_id d) = (r = f)"
      using uniq [of r] f by blast
  qed
  also have "\<dots> = [f]" using dt ft by (rule filter_eq_single)
  finally show ?thesis using ft f(2) old by blast
qed

theorem delete_duplicate_deliveries_keeps_first_witness:
  "distinct (map sd_id [delivery_a, delivery_b, delivery_c]) \<and>
   delete_duplicate_deliveries [delivery_a, delivery_b, delivery_c] = [delivery_b, delivery_c] \<and>
   (\<exists>s. filter (\<lambda>r. sd_story_id r = sd_story_id delivery_a)
          (delete_duplicate_deliveries [delivery_a, delivery_b, delivery_c]) = [s] \<and>
        sd_created_at s \<le> sd_created_at delivery_a \<and>
        sd_created_at s \<le> sd_created_at delivery_b)"
proof -
  have d: "distinct (map sd_id [delivery_a, delivery_b, delivery_c])"
    by (simp add: delivery_a_def delivery_b_def delivery_c_def delivery_template_def)
  have m: "delivery_a \<in> set [delivery_a, delivery_b, delivery_c]" by simp
  have e: "delete_duplicate_deliveries [delivery_a, delivery_b, delivery_c]
           = [delivery_b, delivery_c]"
    by (simp add: delete_duplicate_deliveries_def first_delivery_ids_def first_deliveries_def
        delivery_a_def delivery_b_def delivery_c_def delivery_template_def)
  have ab: "sd_story_id delivery_b = sd_story_id delivery_a"
    by (simp add: delivery_a_def delivery_b_def delivery_template_def)
  from delete_duplicate_deliveries_keeps_first [OF d m] obtain s where
    s: "filter (\<lambda>r. sd_story_id r = sd_story_id delivery_a)
          (delete_duplicate_deliveries [delivery_a, delivery_b, delivery_c]) = [s]"
    and o: "\<forall>other \<in> set [delivery_a, delivery_b, delivery_c].
              sd_story_id other = sd_story_id delivery_a \<longrightarrow>
              sd_created_at s \<le> sd_created_at other"
    by blast
  from o ab have "sd_created_at s \<le> sd_created_at delivery_a"
    and "sd_created_at s \<le> sd_created_at delivery_b" by simp_all
  with d e s show ?thesis by blast
qed

section \<open>One delivery per story\<close>

lemma violated_constraint_None:
  "violated_constraint tbl = None \<longleftrightarrow> distinct (map sd_id tbl) \<and> distinct (map sd_story_id tbl)"
  by (simp add: violated_constraint_def)

lemma exec_statement_unique:
  assumes "distinct (map sd_story_id tbl)" and "exec_statement st tbl = Inr tbl'"
  shows "distinct (map sd_story_id tbl')"
proof (cases st)
  case (Insert new)
  with assms(2) have "violated_constraint tbl' = None"
    by (auto simp: insert_delivery_def split: option.splits)
  then show ?thesis by (simp add: violated_constraint_None)
next
  case (Update now wh st)
  with assms(2) have "violated_constraint tbl' = None"
    by (auto simp: update_deliveries_def Let_def split: option.splits)
  then show ?thesis by (simp add: violated_constraint_None)
next
  case (Delete wh)
  with assms(2) have "tbl' = filter (\<lambda>d. wh d = False) tbl"
    by (simp add: delete_deliveries_def)
  then show ?thesis using assms(1) by (simp add: distinct_map_filter)
qed

lemma exec_statements_unique:
  assumes "distinct (map sd_story_id tbl)"
  shows "distinct (map sd_story_id (exec_statements sts tbl))"
  using assms
proof (induction sts arbitrary: tbl)
  case Nil
  then show ?case by simp
next
  case (Cons st sts)
  show ?case
  proof (cases "exec_statement st tbl")
    case (Inl e)
    then show ?thesis using Cons by simp
  next
    case (Inr tbl')
    then have "distinct (map sd_story_id tbl')"
      using exec_statement_unique Cons.prems by blast
    then show ?thesis using Cons.IH Inr by simp
  qed
qed

lemma distinct_key_count:
  assumes "distinct (map f xs)"
  shows "length (filter (\<lambda>x. f x = k) xs) \<le> 1"
  using assms
proof (induction xs)
  case Nil
  then show ?case by simp
next
  case (Cons a xs)
  show ?case
  proof (cases "f a = k")
    case True
    then have "k \<notin> f ` set xs" using Cons.prems by auto
    then have "filter (\<lambda>x. f x = k) xs = []" by (auto simp: filter_empty_conv)
    with True show ?thesis by simp
  next
    case False
    then show ?thesis using Cons by simp
  qed
qed

lemma insert_delivery_same_story:
  assumes "sd_story_id new \<in> sd_story_id ` set tbl"
  shows "\<exists>e. insert_delivery new tbl = Inl e"
proof -
  have "distinct (map sd_story_id (tbl @ [new])) = False" using assms by auto
  then have "violated_constraint (tbl @ [new]) \<noteq> None"
    by (simp add: violated_constraint_def)
  then show ?thesis by (auto simp: insert_delivery_def)
qed

lemma fix_duplicate_deliveries_succeeds:
  assumes "distinct (map sd_id tbl)"
  shows "fix_duplicate_deliveries tbl = Inr (delete_duplicate_deliveries tbl)"
  using delete_duplicate_deliveries_unique [OF assms]
  by (simp add: fix_duplicate_deliveries_def add_unique_story_delivery_def)

text \<open>
  C3. Once the migration has put \<open>unique_story_delivery\<close> in place, every history of
  inserts, updates and deletes leaves at most one row for any \<open>story_id\<close>, and an
  insert for a \<open>story_id\<close> that already has a row raises an error and adds no row.
\<close>

theorem unique_story_delivery_holds:
  assumes "fix_duplicate_deliveries tbl0 = Inr tbl"
  shows "length (filter (\<lambda>d. sd_story_id d = story) (exec_statements sts tbl)) \<le> 1 \<and>
         (sd_story_id new \<in> sd_story_id ` set (exec_statements sts tbl) \<longrightarrow>
            (\<exists>e. insert_delivery new (exec_statements sts tbl) = Inl e) \<and>
            exec_statements (sts @ [Insert new]) tbl = exec_statements sts tbl)"
proof -
  have "distinct (map sd_story_id tbl)"
    using assms
    by (auto simp: fix_duplicate_deliveries_def add_unique_story_delivery_def split: if_splits)
  then have u: "distinct (map sd_story_id (exec_statements sts tbl))"
    by (rule exec_statements_unique)
  have app: "exec_statements (sts @ [st]) t = exec_statements [st] (exec_statements sts t)" for st t
    by (induction sts arbitrary: t) (auto split: sum.splits)
  have "length (filter (\<lambda>d. sd_story_id d = story) (exec_statements sts tbl)) \<le> 1"
    using u by (rule distinct_key_count)
  moreover have "(\<exists>e. insert_delivery new (exec_statements sts tbl) = Inl e) \<and>
            exec_statements (sts @ [Insert new]) tbl = exec_statements sts tbl"
    if "sd_story_id new \<in> sd_story_id ` set (exec_statements sts tbl)"
  proof -
    from insert_delivery_same_story [OF that] obtain e where
      e: "insert_delivery new (exec_statements sts tbl) = Inl e" by blast
    then show ?thesis by (simp add: app)
  qed
  ultimately show ?thesis by blast
qed


theorem unique_story_delivery_holds_witness:
  "fix_duplicate_deliveries [delivery_a, delivery_b, delivery_c] = Inr [delivery_b, delivery_c] \<and>
   length (filter (\<lambda>d. sd_story_id d = 7) [delivery_b, delivery_c]) \<le> 1 \<and>
   (\<exists>e. insert_delivery delivery_a [delivery_b, delivery_c] = Inl e) \<and>
   exec_statements [Insert delivery_a] [delivery_b, delivery_c] = [delivery_b, delivery_c]"
proof -
  have f: "fix_duplicate_deliveries [delivery_a, delivery_b, delivery_c]
           = Inr [delivery_b, delivery_c]"
    by (simp add: fix_duplicate_deliveries_def add_unique_story_delivery_def
        delete_duplicate_deliveries_def first_delivery_ids_def first_deliveries_def
        delivery_a_def delivery_b_def delivery_c_def delivery_template_def)
  have m: "sd_story_id delivery_a \<in> sd_story_id ` set (exec_statements [] [delivery_b, delivery_c])"
    by (simp add: delivery_a_def delivery_b_def delivery_template_def)
  note th = unique_story_delivery_holds [OF f, of 7 "[]" delivery_a]
  from th have l: "length (filter (\<lambda>d. sd_story_id d = 7)
                     (exec_statements [] [delivery_b, delivery_c])) \<le> 1"
    by (rule conjunct1)
  from th m have i:
    "(\<exists>e. insert_delivery delivery_a (exec_statements [] [delivery_b, delivery_c]) = Inl e) \<and>
     exec_statements ([] @ [Insert delivery_a]) [delivery_b, delivery_c]
       = exec_statements [] [delivery_b, delivery_c]"
    by blast
  from l have l': "length (filter (\<lambda>d. sd_story_id d = 7) [delivery_b, delivery_c]) \<le> 1"
    by (simp only: exec_statements.simps(1))
  from i have i':
    "(\<exists>e. insert_delivery delivery_a [delivery_b, delivery_c] = Inl e) \<and>
     exec_statements [Insert delivery_a] [delivery_b, delivery_c] = [delivery_b, delivery_c]"
    by (simp only: exec_statements.simps(1) append_Nil)
  from f l' i' show ?thesis by blast
qed

section \<open>\<open>deliver_at\<close> under delivery processing\<close>

lemma step_set_keeps:
  "sd_deliver_at (step_set max_retries now step d) = sd_deliver_at d"
  "sd_id (step_set max_retries now step d) = sd_id d"
  by (cases step; simp add: retry_or_fail_def)+

lemma update_deliveries_keeps:
  assumes "\<And>d. sd_deliver_at (set_clause d) = sd_deliver_at d"
    and "\<And>d. sd_id (set_clause d) = sd_id d"
    and "update_deliveries now where_clause set_clause tbl = Inr tbl'"
  shows "map (\<lambda>d. (sd_id d, sd_deliver_at d)) tbl' = map (\<lambda>d. (sd_id d, sd_deliver_at d)) tbl"
proof -
  have "tbl' = map (\<lambda>d. if where_clause d then update_updated_at_column now (set_clause d)
                           else d) tbl"
    using assms(3) by (auto simp: update_deliveries_def Let_def split: option.splits)
  then show ?thesis
    using assms(1,2) by (simp add: update_updated_at_column_def)
qed

text \<open>
  C9. \<open>deliver_at\<close> is written by the insert of the row. Whatever sequence of sends, recorded
  results, retries, failures and reaper runs follows, at whatever times, every row keeps
  the \<open>deliver_at\<close> it had: the trigger run on each update writes \<open>updated_at\<close> only.
\<close>

theorem deliver_at_never_rewritten:
  "map (\<lambda>d. (sd_id d, sd_deliver_at d))
     (exec_statements (map (delivery_step_statement max_retries) steps) tbl)
   = map (\<lambda>d. (sd_id d, sd_deliver_at d)) tbl"
proof (induction steps arbitrary: tbl)
  case Nil
  show ?case by simp
next
  case (Cons ts steps)
  let ?st = "delivery_step_statement max_retries ts"
  show ?case
  proof (cases "exec_statement ?st tbl")
    case (Inl e)
    then show ?thesis using Cons.IH [of tbl] by simp
  next
    case (Inr tbl')
    then have u: "update_deliveries (fst ts) (step_where (snd ts))
                    (step_set max_retries (fst ts) (snd ts)) tbl = Inr tbl'"
      by (simp add: delivery_step_statement_def)
    have "map (\<lambda>d. (sd_id d, sd_deliver_at d)) tbl' = map (\<lambda>d. (sd_id d, sd_deliver_at d)) tbl"
      by (rule update_deliveries_keeps [OF _ _ u]) (rule step_set_keeps)+
    then show ?thesis using Cons.IH [of tbl'] Inr by simp
  qed
qed

theorem deliver_at_never_rewritten_witness:
  "map sd_deliver_at
     (exec_statements
        (map (delivery_step_statement 3)
           [(900, Start_sending 12), (901, Record_failure 12 ''timeout''),
            (950, Reap (\<lambda>d. True)), (960, Record_sent 13 ''re_1'')])
        [delivery_b, delivery_c])
   = [700, 750] \<and>
   map sd_status
     (exec_statements
        (map (delivery_step_statement 3)
           [(900, Start_sending 12), (901, Record_failure 12 ''timeout''),
            (950, Reap (\<lambda>d. True)), (960, Record_sent 13 ''re_1'')])
        [delivery_b, delivery_c])
   = [delivery_pending, sent]"
proof -
  let ?steps = "[(900, Start_sending 12), (901, Record_failure 12 ''timeout''),
            (950, Reap (\<lambda>d. True)), (960, Record_sent 13 ''re_1'')]"
  let ?r = "exec_statements (map (delivery_step_statement 3) ?steps) [delivery_b, delivery_c]"
  have "map snd (map (\<lambda>d. (sd_id d, sd_deliver_at d)) ?r)
        = map snd (map (\<lambda>d. (sd_id d, sd_deliver_at d)) [delivery_b, delivery_c])"
    by (simp only: deliver_at_never_rewritten [of 3 ?steps "[delivery_b, delivery_c]"])
  then have a: "map sd_deliver_at ?r = [700, 750]"
    by (simp add: comp_def delivery_b_def delivery_c_def delivery_template_def)
  have b: "map sd_status ?r = [delivery_pending, sent]"
    by (simp add: delivery_step_statement_def update_deliveries_def violated_constraint_def
        update_updated_at_column_def retry_or_fail_def
        delivery_b_def delivery_c_def delivery_template_def)
  from a b show ?thesis by simp
qed

end
